theory Spec2Isabelle
  imports
    Main
    "HOL-Library.Char_ord"
    "HOL-Library.List_Lexorder"
    "HOL-Library.Multiset"
    "HOL-Library.AList"
begin

section \<open>Python values used by \<^verbatim>\<open>proj2_nps.py\<close>\<close>

text \<open>
  Python strings are modelled as \<^typ>\<open>string\<close>: a list of code points below 256.
  With \<^verbatim>\<open>Char_ord\<close> and \<^verbatim>\<open>List_Lexorder\<close> the order on \<^typ>\<open>string\<close> is the
  lexicographic order on code points, which is the order of Python's \<^verbatim>\<open>list.sort\<close> on
  strings. Exceptions are values of \<open>py_error\<close>; a function that can raise returns
  \<open>py_error + 'a\<close>.
\<close>

datatype py_error =
    KeyError
  | AttributeError
  | ValueError
  | OSError
  | EOFError
  | RequestException

definition digit_char :: "nat \<Rightarrow> char" where
  "digit_char d = char_of (48 + d)"

definition is_digit :: "char \<Rightarrow> bool" where
  "is_digit c \<longleftrightarrow> 48 \<le> (of_char c :: nat) \<and> (of_char c :: nat) \<le> 57"

definition digit_val :: "char \<Rightarrow> nat" where
  "digit_val c = of_char c - 48"

text \<open>\<^verbatim>\<open>str(n)\<close> for a Python int: decimal digits, no leading zero, a minus sign first.\<close>

fun nat_digits :: "nat \<Rightarrow> string" where
  "nat_digits n =
     (if n < 10 then [digit_char n] else nat_digits (n div 10) @ [digit_char (n mod 10)])"

declare nat_digits.simps [simp del]

definition int_str :: "int \<Rightarrow> string" where
  "int_str i = (if i < 0 then CHR ''-'' # nat_digits (nat (- i)) else nat_digits (nat i))"

text \<open>\<^verbatim>\<open>sep.join(xs)\<close>.\<close>

fun str_join :: "string \<Rightarrow> string list \<Rightarrow> string" where
  "str_join sep [] = []"
| "str_join sep [x] = x"
| "str_join sep (x # y # ys) = x @ sep @ str_join sep (y # ys)"

text \<open>
  A Python \<^verbatim>\<open>dict\<close> with string keys is an association list in insertion order whose
  keys are distinct. \<^verbatim>\<open>d[k] = v\<close> is \<^const>\<open>AList.update\<close>: it replaces the value in
  place when the key is there and appends the pair otherwise. \<^verbatim>\<open>d[k]\<close> is
  \<^const>\<open>map_of\<close>, \<^verbatim>\<open>k in d.keys()\<close> is \<open>map_of d k \<noteq> None\<close>.
\<close>

section \<open>The JSON documents of the cache file\<close>

datatype json =
    JNull
  | JBool bool
  | JInt int
  | JStr string
  | JArr "json list"
  | JObj "(string \<times> json) list"

text \<open>
  The values \<^verbatim>\<open>json.loads\<close> returns and \<^verbatim>\<open>json.dumps\<close> accepts: \<^verbatim>\<open>None\<close>,
  \<^verbatim>\<open>bool\<close>, \<^verbatim>\<open>int\<close>, \<^verbatim>\<open>str\<close>, \<^verbatim>\<open>list\<close> and \<^verbatim>\<open>dict\<close> with
  string keys. Floating-point numbers are left out of the model.
  A value is well formed when every dictionary in it has distinct keys, as every
  Python dictionary has.
\<close>

primrec wf_json :: "json \<Rightarrow> bool" where
  "wf_json JNull = True"
| "wf_json (JBool b) = True"
| "wf_json (JInt i) = True"
| "wf_json (JStr s) = True"
| "wf_json (JArr vs) = list_all (\<lambda>b. b) (map wf_json vs)"
| "wf_json (JObj kvs) =
     (distinct (map fst kvs) \<and> list_all snd (map (map_prod id wf_json) kvs))"

subsection \<open>\<^verbatim>\<open>json.dumps\<close> with its default arguments\<close>

text \<open>
  \<^verbatim>\<open>ensure_ascii=True\<close>, separators \<^verbatim>\<open>", "\<close> and \<^verbatim>\<open>": "\<close>, no indentation.
  A string is written between double quotes (code point \<open>0x22\<close>); the quote and the
  backslash (\<open>0x5C\<close>) are escaped with a backslash, backspace, form feed, newline,
  carriage return and tab have their short escapes, the other code points outside
  \<open>0x20..0x7E\<close> are written \<^verbatim>\<open>\u00xx\<close> in lower-case hexadecimal.
\<close>

definition hex_digit :: "nat \<Rightarrow> char" where
  "hex_digit d = (if d < 10 then char_of (48 + d) else char_of (87 + d))"

definition escape_char :: "char \<Rightarrow> string" where
  "escape_char c =
     (if c = CHR 0x22 then [CHR 0x5C, CHR 0x22]
      else if c = CHR 0x5C then [CHR 0x5C, CHR 0x5C]
      else if c = CHR 0x0A then [CHR 0x5C, CHR ''n'']
      else if c = CHR 0x0D then [CHR 0x5C, CHR ''r'']
      else if c = CHR 0x09 then [CHR 0x5C, CHR ''t'']
      else if c = CHR 0x08 then [CHR 0x5C, CHR ''b'']
      else if c = CHR 0x0C then [CHR 0x5C, CHR ''f'']
      else if 32 \<le> (of_char c :: nat) \<and> (of_char c :: nat) \<le> 126 then [c]
      else [CHR 0x5C, CHR ''u'', CHR ''0'', CHR ''0'',
            hex_digit (of_char c div 16), hex_digit (of_char c mod 16)])"

definition encode_basestring_ascii :: "string \<Rightarrow> string" where
  "encode_basestring_ascii s = CHR 0x22 # concat (map escape_char s) @ [CHR 0x22]"

definition dumps_item :: "string \<times> string \<Rightarrow> string" where
  "dumps_item p = encode_basestring_ascii (fst p) @ '': '' @ snd p"

primrec json_dumps :: "json \<Rightarrow> string" where
  "json_dumps JNull = ''null''"
| "json_dumps (JBool b) = (if b then ''true'' else ''false'')"
| "json_dumps (JInt i) = int_str i"
| "json_dumps (JStr s) = encode_basestring_ascii s"
| "json_dumps (JArr vs) = ''['' @ str_join '', '' (map json_dumps vs) @ '']''"
| "json_dumps (JObj kvs) =
     ''{'' @ str_join '', '' (map dumps_item (map (map_prod id json_dumps) kvs)) @ ''}''"

subsection \<open>\<^verbatim>\<open>json.loads\<close>\<close>

text \<open>
  The decoder of the standard library: white space (space, tab, newline, carriage
  return) is allowed between tokens; a string may not hold a raw control character
  and knows the escapes \<^verbatim>\<open>\" \\ \/ \b \f \n \r \t \uXXXX\<close>; a number is
  \<^verbatim>\<open>-?(0|[1-9][0-9]*)\<close>; a key that occurs twice in an object keeps its first
  position and its last value; anything after the document is an error. A failure
  (\<^verbatim>\<open>JSONDecodeError\<close>) is the value \<open>None\<close>. Outside the model, and \<open>None\<close>
  here: numbers with a fraction or an exponent, \<^verbatim>\<open>NaN\<close> and \<^verbatim>\<open>Infinity\<close>, and
  \<^verbatim>\<open>\uXXXX\<close> escapes of code points from 256 on.
\<close>

definition is_ws :: "char \<Rightarrow> bool" where
  "is_ws c \<longleftrightarrow> c = CHR '' '' \<or> c = CHR 0x09 \<or> c = CHR 0x0A \<or> c = CHR 0x0D"

fun skip_ws :: "string \<Rightarrow> string" where
  "skip_ws [] = []"
| "skip_ws (c # cs) = (if is_ws c then skip_ws cs else c # cs)"

definition hex_val :: "char \<Rightarrow> nat option" where
  "hex_val c =
     (let n = (of_char c :: nat) in
      if 48 \<le> n \<and> n \<le> 57 then Some (n - 48)
      else if 97 \<le> n \<and> n \<le> 102 then Some (n - 87)
      else if 65 \<le> n \<and> n \<le> 70 then Some (n - 55)
      else None)"

definition hex4 :: "char \<Rightarrow> char \<Rightarrow> char \<Rightarrow> char \<Rightarrow> nat option" where
  "hex4 a b c d =
     (case (hex_val a, hex_val b, hex_val c, hex_val d) of
        (Some w, Some x, Some y, Some z) \<Rightarrow> Some (((w * 16 + x) * 16 + y) * 16 + z)
      | _ \<Rightarrow> None)"

definition backslash_decode :: "char \<Rightarrow> char option" where
  "backslash_decode e =
     (if e = CHR 0x22 then Some (CHR 0x22)
      else if e = CHR 0x5C then Some (CHR 0x5C)
      else if e = CHR ''/'' then Some (CHR ''/'')
      else if e = CHR ''b'' then Some (CHR 0x08)
      else if e = CHR ''f'' then Some (CHR 0x0C)
      else if e = CHR ''n'' then Some (CHR 0x0A)
      else if e = CHR ''r'' then Some (CHR 0x0D)
      else if e = CHR ''t'' then Some (CHR 0x09)
      else None)"

definition cons_result :: "char \<Rightarrow> (string \<times> string) option \<Rightarrow> (string \<times> string) option" where
  "cons_result c r = (case r of None \<Rightarrow> None | Some (s, rest) \<Rightarrow> Some (c # s, rest))"

text \<open>\<open>scanstring\<close> reads the body of a string, after its opening quote, up to and
  including the closing quote; it returns the decoded string and the rest of the input.\<close>

fun scanstring :: "string \<Rightarrow> (string \<times> string) option" where
  "scanstring [] = None"
| "scanstring (c # cs) =
     (if c = CHR 0x22 then Some ([], cs)
      else if c = CHR 0x5C then
        (case cs of
           [] \<Rightarrow> None
         | e # es \<Rightarrow>
             if e = CHR ''u'' then
               (case es of
                  h1 # h2 # h3 # h4 # rest \<Rightarrow>
                    (case hex4 h1 h2 h3 h4 of
                       None \<Rightarrow> None
                     | Some n \<Rightarrow> if n < 256 then cons_result (char_of n) (scanstring rest) else None)
                | _ \<Rightarrow> None)
             else
               (case backslash_decode e of
                  None \<Rightarrow> None
                | Some d \<Rightarrow> cons_result d (scanstring es)))
      else if (of_char c :: nat) < 32 then None
      else cons_result c (scanstring cs))"

fun scan_digits :: "nat \<Rightarrow> string \<Rightarrow> nat \<times> string" where
  "scan_digits acc [] = (acc, [])"
| "scan_digits acc (c # cs) =
     (if is_digit c then scan_digits (acc * 10 + digit_val c) cs else (acc, c # cs))"

definition scan_nat :: "string \<Rightarrow> (nat \<times> string) option" where
  "scan_nat s =
     (case s of
        [] \<Rightarrow> None
      | c # cs \<Rightarrow>
          if c = CHR ''0'' then Some (0, cs)
          else if is_digit c then Some (scan_digits (digit_val c) cs)
          else None)"

definition scan_number :: "string \<Rightarrow> (json \<times> string) option" where
  "scan_number s =
     (case s of
        [] \<Rightarrow> None
      | c # cs \<Rightarrow>
          if c = CHR ''-'' then
            (case scan_nat cs of None \<Rightarrow> None | Some (n, rest) \<Rightarrow> Some (JInt (- int n), rest))
          else
            (case scan_nat s of None \<Rightarrow> None | Some (n, rest) \<Rightarrow> Some (JInt (int n), rest)))"

fun strip_prefix :: "string \<Rightarrow> string \<Rightarrow> string option" where
  "strip_prefix [] s = Some s"
| "strip_prefix (p # ps) [] = None"
| "strip_prefix (p # ps) (c # cs) = (if p = c then strip_prefix ps cs else None)"

text \<open>
  The recursive descent, on a fuel that bounds the number of nested calls; \<open>json_loads\<close>
  starts it with more fuel than the text has characters. \<open>parse_array\<close> and
  \<open>parse_object\<close> read the elements that follow an opening bracket that is not
  closed at once, with the elements read so far.
\<close>

fun parse_value :: "nat \<Rightarrow> string \<Rightarrow> (json \<times> string) option"
  and parse_array :: "nat \<Rightarrow> json list \<Rightarrow> string \<Rightarrow> (json \<times> string) option"
  and parse_object :: "nat \<Rightarrow> (string \<times> json) list \<Rightarrow> string \<Rightarrow> (json \<times> string) option"
where
  "parse_value 0 s = None"
| "parse_value (Suc n) s =
     (case skip_ws s of
        [] \<Rightarrow> None
      | c # cs \<Rightarrow>
          if c = CHR 0x22 then
            (case scanstring cs of None \<Rightarrow> None | Some (str, rest) \<Rightarrow> Some (JStr str, rest))
          else if c = CHR ''{'' then
            (case skip_ws cs of
               [] \<Rightarrow> None
             | d # ds \<Rightarrow> if d = CHR ''}'' then Some (JObj [], ds) else parse_object n [] (d # ds))
          else if c = CHR ''['' then
            (case skip_ws cs of
               [] \<Rightarrow> None
             | d # ds \<Rightarrow> if d = CHR '']'' then Some (JArr [], ds) else parse_array n [] (d # ds))
          else if c = CHR ''n'' then
            (case strip_prefix ''null'' (c # cs) of None \<Rightarrow> None | Some rest \<Rightarrow> Some (JNull, rest))
          else if c = CHR ''t'' then
            (case strip_prefix ''true'' (c # cs) of None \<Rightarrow> None | Some rest \<Rightarrow> Some (JBool True, rest))
          else if c = CHR ''f'' then
            (case strip_prefix ''false'' (c # cs) of None \<Rightarrow> None | Some rest \<Rightarrow> Some (JBool False, rest))
          else scan_number (c # cs))"
| "parse_array 0 acc s = None"
| "parse_array (Suc n) acc s =
     (case parse_value n s of
        None \<Rightarrow> None
      | Some (v, rest) \<Rightarrow>
          (case skip_ws rest of
             [] \<Rightarrow> None
           | d # ds \<Rightarrow>
               if d = CHR '']'' then Some (JArr (acc @ [v]), ds)
               else if d = CHR '','' then parse_array n (acc @ [v]) ds
               else None))"
| "parse_object 0 acc s = None"
| "parse_object (Suc n) acc s =
     (case skip_ws s of
        [] \<Rightarrow> None
      | q # qs \<Rightarrow>
          if q \<noteq> CHR 0x22 then None
          else
            (case scanstring qs of
               None \<Rightarrow> None
             | Some (key, rest) \<Rightarrow>
                 (case skip_ws rest of
                    [] \<Rightarrow> None
                  | c # cs \<Rightarrow>
                      if c \<noteq> CHR '':'' then None
                      else
                        (case parse_value n cs of
                           None \<Rightarrow> None
                         | Some (v, rest') \<Rightarrow>
                             (case skip_ws rest' of
                                [] \<Rightarrow> None
                              | d # ds \<Rightarrow>
                                  if d = CHR ''}'' then Some (JObj (AList.update key v acc), ds)
                                  else if d = CHR '','' then
                                    parse_object n (AList.update key v acc) ds
                                  else None)))))"

definition json_loads :: "string \<Rightarrow> json option" where
  "json_loads s =
     (case parse_value (Suc (length s)) s of
        None \<Rightarrow> None
      | Some (v, rest) \<Rightarrow> if skip_ws rest = [] then Some v else None)"

text \<open>The text after a number must not go on with a digit, or the number would be longer.\<close>

definition stops_number :: "string \<Rightarrow> bool" where
  "stops_number rest \<longleftrightarrow> (case rest of [] \<Rightarrow> True | c # cs \<Rightarrow> \<not> is_digit c)"

section \<open>The cache file and the outside world\<close>

text \<open>
  The state of the file \<^verbatim>\<open>CACHE_FILENAME\<close>: absent (\<^verbatim>\<open>open\<close> raises), present but
  not accessible (\<^verbatim>\<open>open\<close> raises, for reading and for writing), present with bytes
  that are not text (\<^verbatim>\<open>read\<close> raises), or present with a text.
  The world is the file and the trace of what the program did to the outside, in order.
  The network is an argument of each operation: \<open>net url\<close> is the body
  \<^verbatim>\<open>requests.get(url).text\<close>, or the exception the request raises.
\<close>

datatype file_state = Absent | Unreadable | Undecodable | Content string

datatype event =
    DiskRead
  | DiskWrite string
  | HttpGet string
  | Print string

record world =
  disk :: file_state
  trace :: "event list"

definition emit :: "event \<Rightarrow> world \<Rightarrow> world" where
  "emit e w = w\<lparr>trace := trace w @ [e]\<rparr>"

text \<open>Lines 15-35: the bare \<^verbatim>\<open>except\<close> turns every failure into \<^verbatim>\<open>{}\<close>.\<close>

definition open_cache :: "world \<Rightarrow> json \<times> world" where
  "open_cache w =
     (let w' = emit DiskRead w in
      case disk w of
        Content cache_contents \<Rightarrow>
          (case json_loads cache_contents of
             Some cache_dict \<Rightarrow> (cache_dict, w')
           | None \<Rightarrow> (JObj [], w'))
      | _ \<Rightarrow> (JObj [], w'))"

text \<open>Lines 38-53: the whole document replaces the file.\<close>

definition save_cache :: "json \<Rightarrow> world \<Rightarrow> (py_error + unit) \<times> world" where
  "save_cache cache_dict w =
     (let dumped_json_cache = json_dumps cache_dict in
      case disk w of
        Unreadable \<Rightarrow> (Inl OSError, w)
      | _ \<Rightarrow> (Inr (), emit (DiskWrite dumped_json_cache) (w\<lparr>disk := Content dumped_json_cache\<rparr>)))"


section \<open>Request keys\<close>

text \<open>
  The values of a parameter dictionary are strings and ints (line 230); an f-string
  renders a string as itself and an int in decimal.
\<close>

datatype param_value = PStr string | PInt int

primrec py_format :: "param_value \<Rightarrow> string" where
  "py_format (PStr s) = s"
| "py_format (PInt i) = int_str i"

text \<open>Lines 71-77: the loop over \<^verbatim>\<open>params.keys()\<close>, then \<^verbatim>\<open>sort\<close> and \<^verbatim>\<open>join\<close>.\<close>

fun param_loop ::
  "(string \<times> param_value) list \<Rightarrow> string list \<Rightarrow> string list \<Rightarrow> py_error + string list" where
  "param_loop params [] param_strings = Inr param_strings"
| "param_loop params (k # ks) param_strings =
     (case map_of params k of
        None \<Rightarrow> Inl KeyError
      | Some v \<Rightarrow> param_loop params ks (param_strings @ [k @ ''_'' @ py_format v]))"

definition construct_unique_key ::
  "string \<Rightarrow> (string \<times> param_value) list \<Rightarrow> py_error + string" where
  "construct_unique_key baseurl params =
     (let connector = ''_'' in
      case param_loop params (map fst params) [] of
        Inl e \<Rightarrow> Inl e
      | Inr param_strings \<Rightarrow>
          Inr (baseurl @ connector @ str_join connector (sort param_strings)))"

text \<open>
  The key as the specification words it: each parameter rendered as \<^verbatim>\<open>key_value\<close>,
  the strings sorted, joined with an underscore, after the base URL and an underscore.
\<close>

definition render_param :: "string \<times> param_value \<Rightarrow> string" where
  "render_param p = fst p @ ''_'' @ py_format (snd p)"

definition spec_request_key :: "string \<Rightarrow> (string \<times> param_value) list \<Rightarrow> string" where
  "spec_request_key baseurl params =
     baseurl @ ''_'' @ str_join ''_'' (sort (map render_param params))"

section \<open>National sites and the places API\<close>

record national_site =
  category :: string
  name :: string
  address :: string
  zipcode :: string
  phone :: string

definition info :: "national_site \<Rightarrow> string" where
  "info s = name s @ '' ('' @ category s @ '')'' @ '': '' @ address s @ '' '' @ zipcode s"

text \<open>
  Lines 216-241. \<open>api_key\<close> is \<^verbatim>\<open>secrets.API_KEY\<close>, of a module that is not in the
  repository; \<open>api url params\<close> is \<^verbatim>\<open>requests.get(url, params=params).json()\<close> or
  the exception it raises. The result holds what the call returns, the local variable
  \<^verbatim>\<open>CACHE_DICT\<close> when the call ends, and the world.
\<close>

definition mapquest_params :: "string \<Rightarrow> national_site \<Rightarrow> (string \<times> param_value) list" where
  "mapquest_params api_key site_object =
     [(''key'', PStr api_key), (''origin'', PStr (zipcode site_object)), (''radius'', PInt 10),
      (''maxMatches'', PInt 10), (''ambiguities'', PStr ''ignore''), (''outFormat'', PStr ''json'')]"

definition get_nearby_places ::
  "string \<Rightarrow> (string \<Rightarrow> (string \<times> param_value) list \<Rightarrow> py_error + json) \<Rightarrow>
   national_site \<Rightarrow> world \<Rightarrow> (py_error + json) \<times> json \<times> world" where
  "get_nearby_places api_key api site_object w =
     (let BASE_URL = ''http://www.mapquestapi.com/search/v2/radius'';
          params = mapquest_params api_key site_object in
      case open_cache w of
        (JObj CACHE_DICT, w1) \<Rightarrow>
          (case map_of CACHE_DICT (zipcode site_object) of
             Some response3 \<Rightarrow> (Inr response3, JObj CACHE_DICT, emit (Print ''Using Cache'') w1)
           | None \<Rightarrow>
               (let w2 = emit (HttpGet BASE_URL) (emit (Print ''Fetching'') w1) in
                case api BASE_URL params of
                  Inl e \<Rightarrow> (Inl e, JObj CACHE_DICT, w2)
                | Inr response3 \<Rightarrow>
                    (Inr response3,
                     JObj (AList.update (zipcode site_object) response3 CACHE_DICT), w2)))
      | (other, w1) \<Rightarrow> (Inl AttributeError, other, w1))"

section \<open>The interactive loop\<close>

text \<open>
  \<^verbatim>\<open>str.lower\<close> and \<^verbatim>\<open>str.isnumeric\<close> on code points below 256: the capitals are
  \<open>A..Z\<close> and \<open>0xC0..0xDE\<close> without the multiplication sign \<open>0xD7\<close>; the numeric
  characters are the digits, the superscripts \<open>0xB2\<close>, \<open>0xB3\<close>, \<open>0xB9\<close> and the
  fractions \<open>0xBC..0xBE\<close>. \<^verbatim>\<open>int\<close> of a numeric string raises \<^verbatim>\<open>ValueError\<close>
  unless every character is a digit.
\<close>

definition lower_char :: "char \<Rightarrow> char" where
  "lower_char c =
     (let n = (of_char c :: nat) in
      if (65 \<le> n \<and> n \<le> 90) \<or> (192 \<le> n \<and> n \<le> 222 \<and> n \<noteq> 215) then char_of (n + 32) else c)"

definition lower :: "string \<Rightarrow> string" where
  "lower s = map lower_char s"

definition is_numeric_char :: "char \<Rightarrow> bool" where
  "is_numeric_char c \<longleftrightarrow>
     is_digit c \<or> (of_char c :: nat) \<in> {178, 179, 185, 188, 189, 190}"

definition isnumeric :: "string \<Rightarrow> bool" where
  "isnumeric s \<longleftrightarrow> s \<noteq> [] \<and> list_all is_numeric_char s"

definition py_int :: "string \<Rightarrow> py_error + nat" where
  "py_int s =
     (if s \<noteq> [] \<and> list_all is_digit s then Inr (fst (scan_digits 0 s)) else Inl ValueError)"

text \<open>
  Lines 244-297. The scraping functions are arguments: \<open>states_dict\<close> is the result
  of \<^verbatim>\<open>build_state_url_dict()\<close>, \<open>sites_for url\<close> of \<^verbatim>\<open>get_sites_for_state(url)\<close>
  and \<open>places_for site\<close> the lines printed for
  \<^verbatim>\<open>get_nearby_places(site)["searchResults"]\<close>, or the exception raised.
  The inputs are the lines the user types; \<^verbatim>\<open>input\<close> raises \<^verbatim>\<open>EOFError\<close> when
  there is none left. The nested loops are one function on the prompt the program is
  at: \<open>AtState\<close> is the head of the outer loop, \<open>AtSite sites_list\<close> the head of the
  inner loop. The variable \<^verbatim>\<open>temp\<close> is assigned on lines 263 and 267 and read
  nowhere, so it is no part of the state: after either \<^verbatim>\<open>break\<close> of the inner loop
  the body of the outer loop ends and the outer loop starts over.
\<close>

datatype prompt = AtState | AtSite "national_site list"

datatype outcome = Exited | Crashed py_error

datatype printed = AskState | AskNumber | Line string

record scraper =
  states_dict :: "(string \<times> string) list"
  sites_for :: "string \<Rightarrow> py_error + national_site list"
  places_for :: "national_site \<Rightarrow> py_error + string list"

fun site_lines :: "nat \<Rightarrow> national_site list \<Rightarrow> printed list" where
  "site_lines i [] = []"
| "site_lines i (s # ss) =
     Line (''[ '' @ nat_digits (i + 1) @ '' ] '' @ info s) # site_lines (i + 1) ss"

definition dashes :: string where
  "dashes = replicate 34 (CHR ''-'')"

definition after_out :: "printed list \<Rightarrow> printed list \<times> outcome \<Rightarrow> printed list \<times> outcome" where
  "after_out out r = (out @ fst r, snd r)"

fun main_loop :: "scraper \<Rightarrow> prompt \<Rightarrow> string list \<Rightarrow> printed list \<times> outcome" where
  "main_loop S AtState [] = ([AskState], Crashed EOFError)"
| "main_loop S (AtSite sites_list) [] = ([AskNumber], Crashed EOFError)"
| "main_loop S AtState (typed # inputs) =
     (let State = lower typed in
      if State = ''exit'' then ([AskState], Exited)
      else if map_of (states_dict S) (lower State) \<noteq> None then
        (case map_of (states_dict S) State of
           None \<Rightarrow> ([AskState], Crashed KeyError)
         | Some state_url \<Rightarrow>
             (case sites_for S state_url of
                Inl e \<Rightarrow> ([AskState], Crashed e)
              | Inr sites_list \<Rightarrow>
                  after_out
                    ([AskState, Line dashes, Line (''List of national sites in '' @ lower State),
                      Line dashes] @ site_lines 0 sites_list)
                    (main_loop S (AtSite sites_list) inputs)))
      else
        after_out [AskState, Line ''[Error]: Enter proper state name'']
          (main_loop S AtState inputs))"
| "main_loop S (AtSite sites_list) (typed # inputs) =
     (let input_number = lower typed in
      if input_number = ''exit'' then after_out [AskNumber] (main_loop S AtState inputs)
      else if input_number = ''back'' then after_out [AskNumber] (main_loop S AtState inputs)
      else if isnumeric input_number then
        (case py_int input_number of
           Inl e \<Rightarrow> ([AskNumber], Crashed e)
         | Inr n \<Rightarrow>
             if 0 < n \<and> n \<le> length sites_list then
               (let instance = sites_list ! (n - 1) in
                case places_for S instance of
                  Inl e \<Rightarrow> ([AskNumber], Crashed e)
                | Inr nearbyplaces \<Rightarrow>
                    after_out
                      ([AskNumber, Line dashes, Line (''Places near '' @ name instance),
                        Line dashes] @ map Line nearbyplaces)
                      (main_loop S (AtSite sites_list) inputs))
             else
               after_out [AskNumber, Line ''[Error] Invalid input'']
                 (main_loop S (AtSite sites_list) inputs))
      else
        after_out [AskNumber, Line (''[Error] Enter proper state name '' @ [CHR 0x0A])]
          (main_loop S (AtSite sites_list) inputs))"

section \<open>Encoding and decoding are inverse\<close>

subsection \<open>Numbers\<close>

lemma is_digit_digit_char: "d < 10 \<Longrightarrow> is_digit (digit_char d)"
  by (simp add: is_digit_def digit_char_def)

lemma digit_val_digit_char: "d < 10 \<Longrightarrow> digit_val (digit_char d) = d"
  by (simp add: digit_val_def digit_char_def)

lemma digit_char_0: "digit_char 0 = CHR ''0''"
  by code_simp

lemma digit_char_eq_zero: "d < 10 \<Longrightarrow> digit_char d = CHR ''0'' \<longleftrightarrow> d = 0"
proof
  assume d: "d < 10" and e: "digit_char d = CHR ''0''"
  from e have "(of_char (digit_char d) :: nat) = of_char (CHR ''0'')" by simp
  with d show "d = 0" by (simp add: digit_char_def)
qed (simp add: digit_char_0)

lemma nat_digits_nonempty: "nat_digits n \<noteq> []"
  by (subst nat_digits.simps) simp

lemma list_all_digit_nat_digits: "list_all is_digit (nat_digits n)"
proof (induction n rule: nat_digits.induct)
  case (1 n)
  show ?case
  proof (cases "n < 10")
    case True
    then show ?thesis by (subst nat_digits.simps) (simp add: is_digit_digit_char)
  next
    case False
    with 1 show ?thesis by (subst nat_digits.simps) (simp add: is_digit_digit_char)
  qed
qed

lemma hd_nat_digits_zero: "hd (nat_digits n) = CHR ''0'' \<longleftrightarrow> n = 0"
proof (induction n rule: nat_digits.induct)
  case (1 n)
  show ?case
  proof (cases "n < 10")
    case True
    then show ?thesis by (subst nat_digits.simps) (simp add: digit_char_eq_zero)
  next
    case False
    then have "n div 10 \<noteq> 0" by simp
    with False 1 show ?thesis
      by (subst nat_digits.simps) (simp add: nat_digits_nonempty)
  qed
qed

lemma scan_digits_stop: "stops_number rest \<Longrightarrow> scan_digits acc rest = (acc, rest)"
  by (cases rest) (auto simp: stops_number_def)

lemma scan_digits_append:
  "list_all is_digit ds \<Longrightarrow> scan_digits acc (ds @ rest) = scan_digits (fst (scan_digits acc ds)) rest"
  by (induction ds arbitrary: acc) auto

lemma scan_digits_all: "list_all is_digit ds \<Longrightarrow> snd (scan_digits acc ds) = []"
  by (induction ds arbitrary: acc) auto

lemma scan_digits_snoc:
  "list_all is_digit ds \<Longrightarrow> is_digit c \<Longrightarrow>
   fst (scan_digits acc (ds @ [c])) = fst (scan_digits acc ds) * 10 + digit_val c"
  by (induction ds arbitrary: acc) auto

lemma scan_digits_nat_digits: "fst (scan_digits 0 (nat_digits n)) = n"
proof (induction n rule: nat_digits.induct)
  case (1 n)
  show ?case
  proof (cases "n < 10")
    case True
    then show ?thesis
      by (subst nat_digits.simps) (simp add: is_digit_digit_char digit_val_digit_char)
  next
    case False
    with 1 have "fst (scan_digits 0 (nat_digits (n div 10))) = n div 10" by simp
    with False show ?thesis
      by (subst nat_digits.simps)
        (simp add: scan_digits_snoc list_all_digit_nat_digits is_digit_digit_char
          digit_val_digit_char)
  qed
qed

lemma scan_digits_roundtrip:
  assumes "stops_number rest"
  shows "scan_digits 0 (nat_digits n @ rest) = (n, rest)"
  by (simp add: scan_digits_append list_all_digit_nat_digits scan_digits_nat_digits
      scan_digits_stop [OF assms])

lemma scan_nat_roundtrip:
  assumes "stops_number rest"
  shows "scan_nat (nat_digits n @ rest) = Some (n, rest)"
proof -
  obtain c cs where cs: "nat_digits n = c # cs"
    using nat_digits_nonempty [of n] by (cases "nat_digits n") auto
  have dig: "is_digit c"
    using list_all_digit_nat_digits [of n] cs by simp
  show ?thesis
  proof (cases "n = 0")
    case True
    then have "nat_digits n = ''0''" by (subst nat_digits.simps) (simp add: digit_char_0)
    then show ?thesis using True by (simp add: scan_nat_def)
  next
    case False
    then have nz: "c \<noteq> CHR ''0''" using hd_nat_digits_zero [of n] cs by simp
    have "scan_digits 0 (c # cs @ rest) = (n, rest)"
      using scan_digits_roundtrip [OF assms, of n] cs by simp
    then have "scan_digits (digit_val c) (cs @ rest) = (n, rest)"
      using dig by simp
    then show ?thesis using nz dig cs by (simp add: scan_nat_def)
  qed
qed

lemma hd_int_str:
  "\<exists>c cs. int_str i = c # cs \<and> (c = CHR ''-'' \<or> is_digit c)"
proof -
  obtain c cs where cs: "nat_digits (nat i) = c # cs"
    using nat_digits_nonempty [of "nat i"] by (cases "nat_digits (nat i)") auto
  have "is_digit c" using list_all_digit_nat_digits [of "nat i"] cs by simp
  then show ?thesis using cs by (simp add: int_str_def)
qed

lemma scan_number_roundtrip:
  assumes "stops_number rest"
  shows "scan_number (int_str i @ rest) = Some (JInt i, rest)"
proof (cases "i < 0")
  case True
  then show ?thesis
    by (simp add: scan_number_def int_str_def scan_nat_roundtrip [OF assms])
next
  case False
  obtain c cs where cs: "nat_digits (nat i) = c # cs"
    using nat_digits_nonempty [of "nat i"] by (cases "nat_digits (nat i)") auto
  have "is_digit c" using list_all_digit_nat_digits [of "nat i"] cs by simp
  then have nm: "c \<noteq> CHR ''-''" by (auto simp: is_digit_def)
  have "scan_nat (c # cs @ rest) = Some (nat i, rest)"
    using scan_nat_roundtrip [OF assms, of "nat i"] cs by simp
  then show ?thesis using False nm cs
    by (simp add: scan_number_def int_str_def)
qed

subsection \<open>Strings\<close>

lemma of_char_less_256: "(of_char c :: nat) < 256"
proof -
  have "(of_char c :: nat) mod 256 < 256" by simp
  then show ?thesis by (simp only: of_char_mod_256)
qed

lemma hex_val_hex_digit: "d < 16 \<Longrightarrow> hex_val (hex_digit d) = Some d"
  by (simp add: hex_val_def hex_digit_def)

lemma hex_val_zero: "hex_val (CHR ''0'') = Some 0"
  by (simp add: hex_val_def)

lemma hex4_byte:
  "hex4 (CHR ''0'') (CHR ''0'') (hex_digit (of_char c div 16)) (hex_digit (of_char c mod 16)) =
     Some (of_char c)"
proof -
  have "n < 256 \<Longrightarrow> n div 16 < 16" for n :: nat by arith
  then have "(of_char c :: nat) div 16 < 16" using of_char_less_256 [of c] by blast
  then show ?thesis
    by (simp add: hex4_def hex_val_zero hex_val_hex_digit)
qed

lemma scanstring_escape_char:
  "scanstring (escape_char c @ tail) = cons_result c (scanstring tail)"
proof -
  consider (quote) "c = CHR 0x22" | (bs) "c = CHR 0x5C" | (nl) "c = CHR 0x0A"
    | (cr) "c = CHR 0x0D" | (tab) "c = CHR 0x09" | (bsp) "c = CHR 0x08" | (ff) "c = CHR 0x0C"
    | (plain) "c \<noteq> CHR 0x22" "c \<noteq> CHR 0x5C" "c \<noteq> CHR 0x0A" "c \<noteq> CHR 0x0D" "c \<noteq> CHR 0x09"
        "c \<noteq> CHR 0x08" "c \<noteq> CHR 0x0C" "32 \<le> (of_char c :: nat) \<and> (of_char c :: nat) \<le> 126"
    | (uni) "c \<noteq> CHR 0x22" "c \<noteq> CHR 0x5C" "c \<noteq> CHR 0x0A" "c \<noteq> CHR 0x0D" "c \<noteq> CHR 0x09"
        "c \<noteq> CHR 0x08" "c \<noteq> CHR 0x0C" "\<not> (32 \<le> (of_char c :: nat) \<and> (of_char c :: nat) \<le> 126)"
    by blast
  then show ?thesis
  proof cases
    case quote then show ?thesis by (simp add: escape_char_def backslash_decode_def)
  next
    case bs then show ?thesis by (simp add: escape_char_def backslash_decode_def)
  next
    case nl then show ?thesis by (simp add: escape_char_def backslash_decode_def)
  next
    case cr then show ?thesis by (simp add: escape_char_def backslash_decode_def)
  next
    case tab then show ?thesis by (simp add: escape_char_def backslash_decode_def)
  next
    case bsp then show ?thesis by (simp add: escape_char_def backslash_decode_def)
  next
    case ff then show ?thesis by (simp add: escape_char_def backslash_decode_def)
  next
    case plain
    then have "\<not> (of_char c :: nat) < 32" by simp
    with plain show ?thesis by (simp add: escape_char_def)
  next
    case uni
    then have e: "escape_char c = [CHR 0x5C, CHR ''u'', CHR ''0'', CHR ''0'',
            hex_digit (of_char c div 16), hex_digit (of_char c mod 16)]"
      by (simp add: escape_char_def)
    show ?thesis
      by (simp add: e hex4_byte of_char_less_256)
  qed
qed

lemma scanstring_roundtrip:
  "scanstring (concat (map escape_char s) @ CHR 0x22 # rest) = Some (s, rest)"
  by (induction s) (simp_all add: scanstring_escape_char cons_result_def)

lemma escape_char_nonempty: "escape_char c \<noteq> []"
  by (simp add: escape_char_def)

subsection \<open>Documents\<close>

lemma wf_JArr: "wf_json (JArr vs) \<longleftrightarrow> (\<forall>v \<in> set vs. wf_json v)"
  by (simp add: list_all_iff)

lemma wf_JObj:
  "wf_json (JObj kvs) \<longleftrightarrow> distinct (map fst kvs) \<and> (\<forall>p \<in> set kvs. wf_json (snd p))"
  by (simp add: list_all_iff)

lemma str_join_cons: "xs \<noteq> [] \<Longrightarrow> str_join sep (x # xs) = x @ sep @ str_join sep xs"
  by (cases xs) simp_all

lemma parse_value_space: "parse_value n (CHR '' '' # s) = parse_value n s"
  by (cases n) (simp_all add: is_ws_def)

lemma parse_array_space: "parse_array n acc (CHR '' '' # s) = parse_array n acc s"
  by (cases n) (simp_all add: parse_value_space)

lemma parse_object_space: "parse_object n acc (CHR '' '' # s) = parse_object n acc s"
  by (cases n) (simp_all add: is_ws_def)

lemma update_fresh: "k \<notin> fst ` set al \<Longrightarrow> AList.update k v al = al @ [(k, v)]"
  by (induction al) auto

lemma stops_number_simps:
  "stops_number (CHR '','' # s)" "stops_number (CHR '']'' # s)" "stops_number (CHR ''}'' # s)"
  "stops_number []"
  by (simp_all add: stops_number_def is_digit_def)

lemma parse_array_roundtrip:
  assumes "vs \<noteq> []"
    and "\<And>v n rest. v \<in> set vs \<Longrightarrow> length (json_dumps v) \<le> n \<Longrightarrow> stops_number rest \<Longrightarrow>
           parse_value n (json_dumps v @ rest) = Some (v, rest)"
    and "length (str_join '', '' (map json_dumps vs)) < n"
  shows "parse_array n acc (str_join '', '' (map json_dumps vs) @ CHR '']'' # rest) =
           Some (JArr (acc @ vs), rest)"
  using assms
proof (induction vs arbitrary: n acc rule: list_nonempty_induct)
  case (single x)
  from single(2) obtain m where n: "n = Suc m" and m: "length (json_dumps x) \<le> m"
    by (cases n) auto
  have "parse_value m (json_dumps x @ CHR '']'' # rest) = Some (x, CHR '']'' # rest)"
    using single(1) [of x m "CHR '']'' # rest"] m by (simp add: stops_number_simps)
  then show ?case by (simp add: n is_ws_def)
next
  case (cons x xs)
  have j: "str_join '', '' (map json_dumps (x # xs)) =
             json_dumps x @ '', '' @ str_join '', '' (map json_dumps xs)"
    using cons(1) by (simp add: str_join_cons)
  have "length (json_dumps x) + 2 + length (str_join '', '' (map json_dumps xs)) < n"
    using cons(4) unfolding j by simp
  then obtain m where n: "n = Suc m" and m: "length (json_dumps x) \<le> m"
    and m': "length (str_join '', '' (map json_dumps xs)) < m"
    by (cases n) auto
  let ?tail = "str_join '', '' (map json_dumps xs) @ CHR '']'' # rest"
  have "parse_value m (json_dumps x @ CHR '','' # CHR '' '' # ?tail) =
          Some (x, CHR '','' # CHR '' '' # ?tail)"
    using cons(3) [of x m "CHR '','' # CHR '' '' # ?tail"] m by (simp add: stops_number_simps)
  moreover have "parse_array m (acc @ [x]) ?tail = Some (JArr ((acc @ [x]) @ xs), rest)"
    using cons(2) [of m "acc @ [x]"] cons(3) m' by simp
  ultimately show ?case
    unfolding j by (simp add: n is_ws_def parse_array_space)
qed

lemma parse_object_roundtrip:
  assumes "kvs \<noteq> []"
    and "\<And>k v n rest. (k, v) \<in> set kvs \<Longrightarrow> length (json_dumps v) \<le> n \<Longrightarrow> stops_number rest \<Longrightarrow>
           parse_value n (json_dumps v @ rest) = Some (v, rest)"
    and "length (str_join '', '' (map dumps_item (map (map_prod id json_dumps) kvs))) < n"
    and "distinct (map fst kvs)"
    and "fst ` set kvs \<inter> fst ` set acc = {}"
  shows "parse_object n acc
           (str_join '', '' (map dumps_item (map (map_prod id json_dumps) kvs)) @ CHR ''}'' # rest) =
           Some (JObj (acc @ kvs), rest)"
  using assms
proof (induction kvs arbitrary: n acc rule: list_nonempty_induct)
  case (single p)
  obtain k v where p: "p = (k, v)" by (cases p)
  from single(2) obtain m where n: "n = Suc m" and m: "length (json_dumps v) \<le> m"
    by (cases n) (auto simp: p dumps_item_def)
  have fresh: "k \<notin> fst ` set acc" using single(4) by (auto simp: p)
  have "parse_value m (json_dumps v @ CHR ''}'' # rest) = Some (v, CHR ''}'' # rest)"
    using single(1) [of k v m "CHR ''}'' # rest"] m by (simp add: p stops_number_simps)
  then show ?case
    by (simp add: n p dumps_item_def encode_basestring_ascii_def is_ws_def
        scanstring_roundtrip parse_value_space update_fresh [OF fresh])
next
  case (cons p ps)
  obtain k v where p: "p = (k, v)" by (cases p)
  let ?items = "str_join '', '' (map dumps_item (map (map_prod id json_dumps) ps))"
  have j: "str_join '', '' (map dumps_item (map (map_prod id json_dumps) (p # ps))) =
             dumps_item (k, json_dumps v) @ '', '' @ ?items"
    using cons(1) by (simp add: str_join_cons p)
  have "length (dumps_item (k, json_dumps v)) + 2 + length ?items < n"
    using cons(4) unfolding j by simp
  then obtain m where n: "n = Suc m" and m: "length (json_dumps v) \<le> m"
    and m': "length ?items < m"
    by (cases n) (auto simp: dumps_item_def)
  have fresh: "k \<notin> fst ` set acc" using cons(6) by (auto simp: p)
  let ?tail = "?items @ CHR ''}'' # rest"
  have "parse_value m (json_dumps v @ CHR '','' # CHR '' '' # ?tail) =
          Some (v, CHR '','' # CHR '' '' # ?tail)"
    using cons(3) [of k v m "CHR '','' # CHR '' '' # ?tail"] m by (simp add: p stops_number_simps)
  moreover have "parse_object m (acc @ [(k, v)]) ?tail = Some (JObj ((acc @ [(k, v)]) @ ps), rest)"
  proof (rule cons(2))
    show "length ?items < m" by (rule m')
    show "distinct (map fst ps)" using cons(5) by simp
    show "fst ` set ps \<inter> fst ` set (acc @ [(k, v)]) = {}"
      using cons(5) cons(6) by (auto simp: p)
    show "parse_value n (json_dumps v @ rest) = Some (v, rest)"
      if "(k, v) \<in> set ps" "length (json_dumps v) \<le> n" "stops_number rest" for k v n rest
      using cons(3) [of k v n rest] that by simp
  qed
  ultimately show ?case
    unfolding j
    by (simp add: n p dumps_item_def encode_basestring_ascii_def is_ws_def
        scanstring_roundtrip parse_value_space parse_object_space update_fresh [OF fresh])
qed

lemma json_dumps_head:
  "\<exists>c cs. json_dumps v = c # cs \<and> \<not> is_ws c \<and> c \<noteq> CHR '']'' \<and> c \<noteq> CHR ''}''"
proof (cases v)
  case (JInt i)
  obtain c cs where "int_str i = c # cs" "c = CHR ''-'' \<or> is_digit c"
    using hd_int_str [of i] by blast
  then show ?thesis using JInt by (auto simp: is_ws_def is_digit_def)
qed (auto simp: is_ws_def encode_basestring_ascii_def)

lemma parse_value_roundtrip:
  "wf_json v \<Longrightarrow> length (json_dumps v) \<le> n \<Longrightarrow> stops_number rest \<Longrightarrow>
   parse_value n (json_dumps v @ rest) = Some (v, rest)"
proof (induction v arbitrary: n rest)
  case JNull
  then obtain m where "n = Suc m" by (cases n) auto
  then show ?case by (simp add: is_ws_def)
next
  case (JBool b)
  then obtain m where "n = Suc m" by (cases n; cases b) auto
  then show ?case by (cases b) (simp_all add: is_ws_def)
next
  case (JInt i)
  obtain c cs where c: "int_str i = c # cs" "c = CHR ''-'' \<or> is_digit c"
    using hd_int_str [of i] by blast
  from JInt c obtain m where n: "n = Suc m" by (cases n) auto
  have "scan_number (c # cs @ rest) = Some (JInt i, rest)"
    using scan_number_roundtrip [OF JInt(3), of i] c(1) by simp
  moreover have "\<not> is_ws c" "c \<noteq> CHR 0x22" "c \<noteq> CHR ''{''" "c \<noteq> CHR ''[''" "c \<noteq> CHR ''n''"
    "c \<noteq> CHR ''t''" "c \<noteq> CHR ''f''"
    using c(2) by (auto simp: is_ws_def is_digit_def)
  ultimately show ?case by (simp add: n c(1))
next
  case (JStr s)
  then obtain m where "n = Suc m" by (cases n) (auto simp: encode_basestring_ascii_def)
  then show ?case
    by (simp add: encode_basestring_ascii_def is_ws_def scanstring_roundtrip)
next
  case (JArr vs)
  from JArr(3) obtain m where n: "n = Suc m"
    and m: "length (str_join '', '' (map json_dumps vs)) < m"
    by (cases n) auto
  show ?case
  proof (cases "vs = []")
    case True
    then show ?thesis by (simp add: n is_ws_def)
  next
    case False
    then obtain x xs where vs: "vs = x # xs" by (cases vs) auto
    obtain c cs where h: "json_dumps x = c # cs" "\<not> is_ws c" "c \<noteq> CHR '']''"
      using json_dumps_head [of x] by blast
    have "\<exists>ds. str_join '', '' (map json_dumps vs) = c # ds"
      using h(1) vs by (cases xs) simp_all
    then obtain ds where j: "str_join '', '' (map json_dumps vs) = c # ds" ..
    have "parse_array m [] (str_join '', '' (map json_dumps vs) @ CHR '']'' # rest) =
            Some (JArr ([] @ vs), rest)"
    proof (rule parse_array_roundtrip [OF False _ m])
      show "parse_value n (json_dumps v @ rest) = Some (v, rest)"
        if "v \<in> set vs" "length (json_dumps v) \<le> n" "stops_number rest" for v n rest
      proof -
        have "wf_json v" using JArr(2) that(1) by (simp add: list_all_iff)
        then show ?thesis by (rule JArr(1) [OF that(1) _ that(2) that(3)])
      qed
    qed
    then have "parse_array m [] (c # ds @ CHR '']'' # rest) = Some (JArr vs, rest)"
      by (simp add: j)
    then show ?thesis
      using h(2) h(3) by (simp add: n j is_ws_def)
  qed
next
  case (JObj kvs)
  let ?items = "str_join '', '' (map dumps_item (map (map_prod id json_dumps) kvs))"
  from JObj(3) obtain m where n: "n = Suc m" and m: "length ?items < m"
    by (cases n) auto
  show ?case
  proof (cases "kvs = []")
    case True
    then show ?thesis by (simp add: n is_ws_def)
  next
    case False
    then obtain p ps where kvs: "kvs = p # ps" by (cases kvs) auto
    have "\<exists>ds. ?items = CHR 0x22 # ds"
      using kvs by (cases ps) (simp_all add: dumps_item_def encode_basestring_ascii_def)
    then obtain ds where j: "?items = CHR 0x22 # ds" ..
    have "parse_object m [] (?items @ CHR ''}'' # rest) = Some (JObj ([] @ kvs), rest)"
    proof (rule parse_object_roundtrip [OF False _ m])
      show "distinct (map fst kvs)" using JObj(2) by simp
      show "fst ` set kvs \<inter> fst ` set [] = {}" by simp
      show "parse_value n (json_dumps v @ rest) = Some (v, rest)"
        if "(k, v) \<in> set kvs" "length (json_dumps v) \<le> n" "stops_number rest" for k v n rest
      proof -
        have "v \<in> Basic_BNFs.snds (k, v)" by simp
        moreover have "wf_json v" using JObj(2) that(1) by (auto simp: list_all_iff)
        ultimately show ?thesis using JObj(1) [OF that(1) _ _ that(2) that(3)] by blast
      qed
    qed
    then have "parse_object m [] (CHR 0x22 # ds @ CHR ''}'' # rest) = Some (JObj kvs, rest)"
      by (simp add: j del: map_map)
    then show ?thesis
      by (simp add: n j is_ws_def del: map_map)
  qed
qed

lemma json_loads_dumps: "wf_json v \<Longrightarrow> json_loads (json_dumps v) = Some v"
  using parse_value_roundtrip [of v "Suc (length (json_dumps v))" "[]"]
  by (simp add: json_loads_def stops_number_simps)





subsection \<open>The fuel of the decoder is enough\<close>

lemma skip_ws_length: "length (skip_ws s) \<le> length s"
  by (induction s) auto

lemma cons_result_Some:
  "cons_result c x = Some (str, r) \<Longrightarrow> \<exists>str'. x = Some (str', r) \<and> str = c # str'"
  by (auto simp: cons_result_def split: option.splits)

lemma scanstring_length: "scanstring s = Some (str, r) \<Longrightarrow> length r < length s"
proof (induction s arbitrary: str rule: length_induct)
  case (1 s)
  have IH: "length r < length t" if "length t < length s" "scanstring t = Some (str', r)"
    for t str'
    using 1(1) that by blast
  from 1(2) obtain c cs where s: "s = c # cs" by (cases s) auto
  show ?case
  proof (cases "c = CHR 0x22")
    case True
    with 1(2) s show ?thesis by simp
  next
    case nq: False
    show ?thesis
    proof (cases "c = CHR 0x5C")
      case False
      with nq 1(2) s have "cons_result c (scanstring cs) = Some (str, r)"
        by (simp split: if_splits)
      then obtain str' where "scanstring cs = Some (str', r)"
        using cons_result_Some by blast
      then have "length r < length cs" using IH [of cs] s by simp
      then show ?thesis using s by simp
    next
      case True
      with nq 1(2) s obtain e es where es: "cs = e # es" by (cases cs) auto
      show ?thesis
      proof (cases "e = CHR ''u''")
        case False
        with nq True es s 1(2) obtain d where d: "backslash_decode e = Some d"
          and "cons_result d (scanstring es) = Some (str, r)"
          by (auto split: option.splits)
        then obtain str' where "scanstring es = Some (str', r)"
          using cons_result_Some by blast
        then have "length r < length es" using IH [of es] s es by simp
        then show ?thesis using s es by simp
      next
        case u: True
        with nq True es s 1(2) obtain h1 h2 h3 h4 rest where rest: "es = h1 # h2 # h3 # h4 # rest"
          by (auto split: list.splits)
        with nq True es s u 1(2) obtain n where n: "hex4 h1 h2 h3 h4 = Some n" "n < 256"
          and "cons_result (char_of n) (scanstring rest) = Some (str, r)"
          by (auto split: option.splits if_splits)
        then obtain str' where "scanstring rest = Some (str', r)"
          using cons_result_Some by blast
        then have "length r < length rest" using IH [of rest] s es rest by simp
        then show ?thesis using s es rest by simp
      qed
    qed
  qed
qed

lemma scan_digits_length: "length (snd (scan_digits acc s)) \<le> length s"
  by (induction s arbitrary: acc) (auto intro: le_SucI)

lemma scan_nat_length: "scan_nat s = Some (n, r) \<Longrightarrow> length r < length s"
proof -
  assume a: "scan_nat s = Some (n, r)"
  then obtain c cs where s: "s = c # cs" by (cases s) (auto simp: scan_nat_def)
  show ?thesis
  proof (cases "c = CHR ''0''")
    case True
    with a s show ?thesis by (simp add: scan_nat_def)
  next
    case False
    with a s have "scan_digits (digit_val c) cs = (n, r)"
      by (simp add: scan_nat_def split: if_splits)
    then have "r = snd (scan_digits (digit_val c) cs)" by simp
    then show ?thesis using scan_digits_length [of "digit_val c" cs] s by simp
  qed
qed

lemma scan_number_length: "scan_number s = Some (v, r) \<Longrightarrow> length r < length s"
proof -
  assume a: "scan_number s = Some (v, r)"
  then obtain c cs where s: "s = c # cs" by (cases s) (auto simp: scan_number_def)
  show ?thesis
  proof (cases "c = CHR ''-''")
    case True
    with a s obtain n where "scan_nat cs = Some (n, r)"
      by (auto simp: scan_number_def split: option.splits)
    then show ?thesis using scan_nat_length s by fastforce
  next
    case False
    with a s obtain n where "scan_nat s = Some (n, r)"
      by (auto simp: scan_number_def split: option.splits)
    then show ?thesis using scan_nat_length by blast
  qed
qed

lemma strip_prefix_length: "strip_prefix p s = Some r \<Longrightarrow> length r + length p = length s"
  by (induction p s rule: strip_prefix.induct) (auto split: if_splits)

lemma parse_value_fuel_step:
  assumes pv: "parse_value (Suc m) s = Some (v, r)"
    and IHa: "\<And>acc s v r. parse_array m acc s = Some (v, r) \<Longrightarrow> length r < length s \<and>
      (\<forall>k. length s - length r \<le> k \<longrightarrow> parse_array k acc s = Some (v, r))"
    and IHo: "\<And>acc s v r. parse_object m acc s = Some (v, r) \<Longrightarrow> length r < length s \<and>
      (\<forall>k. length s - length r \<le> k \<longrightarrow> parse_object k acc s = Some (v, r))"
  shows "length r < length s \<and>
    (\<forall>k. length s - length r \<le> k \<longrightarrow> parse_value k s = Some (v, r))"
proof -
  from pv obtain c cs where c: "skip_ws s = c # cs"
    by (cases "skip_ws s") simp_all
  have lcs: "length cs < length s"
    using skip_ws_length [of s] c by simp
  consider (str) "c = CHR 0x22" | (obj) "c \<noteq> CHR 0x22" "c = CHR ''{''"
    | (arr) "c \<noteq> CHR 0x22" "c \<noteq> CHR ''{''" "c = CHR ''[''"
    | (lit) "c \<noteq> CHR 0x22" "c \<noteq> CHR ''{''" "c \<noteq> CHR ''[''"
        "c = CHR ''n'' \<or> c = CHR ''t'' \<or> c = CHR ''f''"
    | (num) "c \<noteq> CHR 0x22" "c \<noteq> CHR ''{''" "c \<noteq> CHR ''[''"
        "c \<noteq> CHR ''n''" "c \<noteq> CHR ''t''" "c \<noteq> CHR ''f''"
    by blast
  then show ?thesis
  proof cases
    case str
    with pv c obtain x where x: "scanstring cs = Some (x, r)" "v = JStr x"
      by (cases "scanstring cs") auto
    have len: "length r < length s" using scanstring_length [OF x(1)] lcs by simp
    have "parse_value k s = Some (v, r)" if "length s - length r \<le> k" for k
    proof -
      from that len obtain k' where "k = Suc k'" by (cases k) auto
      then show ?thesis using c str x by simp
    qed
    with len show ?thesis by blast
  next
    case obj
    with pv c obtain d ds where d: "skip_ws cs = d # ds"
      by (cases "skip_ws cs") simp_all
    have lds: "length (d # ds) \<le> length cs" using skip_ws_length [of cs] d by simp
    show ?thesis
    proof (cases "d = CHR ''}''")
      case True
      with pv c obj d have r: "r = ds" "v = JObj []" by auto
      have len: "length r < length s" using r lds lcs by simp
      have "parse_value k s = Some (v, r)" if "length s - length r \<le> k" for k
      proof -
        from that len obtain k' where "k = Suc k'" by (cases k) auto
        then show ?thesis using c obj d True r by simp
      qed
      with len show ?thesis by blast
    next
      case False
      with pv c obj d have po: "parse_object m [] (d # ds) = Some (v, r)" by simp
      note ih = IHo [OF po]
      have "length r < length (d # ds)" using ih by blast
      then have len: "length r < length s" using lds lcs by simp
      have "parse_value k s = Some (v, r)" if "length s - length r \<le> k" for k
      proof -
        from that len obtain k' where k: "k = Suc k'" by (cases k) auto
        have "length (d # ds) - length r \<le> k'" using that k lds lcs by auto
        then have "parse_object k' [] (d # ds) = Some (v, r)" using ih by blast
        then show ?thesis using c obj d False k by simp
      qed
      with len show ?thesis by blast
    qed
  next
    case arr
    with pv c obtain d ds where d: "skip_ws cs = d # ds"
      by (cases "skip_ws cs") simp_all
    have lds: "length (d # ds) \<le> length cs" using skip_ws_length [of cs] d by simp
    show ?thesis
    proof (cases "d = CHR '']''")
      case True
      with pv c arr d have r: "r = ds" "v = JArr []" by auto
      have len: "length r < length s" using r lds lcs by simp
      have "parse_value k s = Some (v, r)" if "length s - length r \<le> k" for k
      proof -
        from that len obtain k' where "k = Suc k'" by (cases k) auto
        then show ?thesis using c arr d True r by simp
      qed
      with len show ?thesis by blast
    next
      case False
      with pv c arr d have pa: "parse_array m [] (d # ds) = Some (v, r)" by simp
      note ih = IHa [OF pa]
      have "length r < length (d # ds)" using ih by blast
      then have len: "length r < length s" using lds lcs by simp
      have "parse_value k s = Some (v, r)" if "length s - length r \<le> k" for k
      proof -
        from that len obtain k' where k: "k = Suc k'" by (cases k) auto
        have "length (d # ds) - length r \<le> k'" using that k lds lcs by auto
        then have "parse_array k' [] (d # ds) = Some (v, r)" using ih by blast
        then show ?thesis using c arr d False k by simp
      qed
      with len show ?thesis by blast
    qed
  next
    case lit
    have "\<exists>p. p \<noteq> [] \<and> strip_prefix p (c # cs) = Some r"
    proof -
      consider "c = CHR ''n''" | "c = CHR ''t''" | "c = CHR ''f''" using lit(4) by blast
      then show ?thesis
      proof cases
        case 1
        with pv c have "strip_prefix ''null'' (c # cs) = Some r"
          by (cases "strip_prefix ''null'' (c # cs)") auto
        then show ?thesis by blast
      next
        case 2
        with pv c have "strip_prefix ''true'' (c # cs) = Some r"
          by (cases "strip_prefix ''true'' (c # cs)") auto
        then show ?thesis by blast
      next
        case 3
        with pv c have "strip_prefix ''false'' (c # cs) = Some r"
          by (cases "strip_prefix ''false'' (c # cs)") auto
        then show ?thesis by blast
      qed
    qed
    then obtain p where pne: "p \<noteq> []" and p: "strip_prefix p (c # cs) = Some r" by blast
    have "length r < length (c # cs)" using strip_prefix_length [OF p] pne
      by (cases p) auto
    then have len: "length r < length s" using lcs by simp
    have "parse_value k s = Some (v, r)" if "length s - length r \<le> k" for k
    proof -
      from that len obtain k' where "k = Suc k'" by (cases k) auto
      then have "parse_value k s = parse_value (Suc m) s" using c lit(1,2,3) by simp
      then show ?thesis using pv by simp
    qed
    with len show ?thesis by blast
  next
    case num
    with pv c have sn: "scan_number (c # cs) = Some (v, r)" by simp
    have len: "length r < length s" using scan_number_length [OF sn] lcs by simp
    have "parse_value k s = Some (v, r)" if "length s - length r \<le> k" for k
    proof -
      from that len obtain k' where "k = Suc k'" by (cases k) auto
      then show ?thesis using c num sn by simp
    qed
    with len show ?thesis by blast
  qed
qed

lemma parse_array_fuel_step:
  assumes pa: "parse_array (Suc m) acc s = Some (v, r)"
    and IHv: "\<And>s v r. parse_value m s = Some (v, r) \<Longrightarrow> length r < length s \<and>
      (\<forall>k. length s - length r \<le> k \<longrightarrow> parse_value k s = Some (v, r))"
    and IHa: "\<And>acc s v r. parse_array m acc s = Some (v, r) \<Longrightarrow> length r < length s \<and>
      (\<forall>k. length s - length r \<le> k \<longrightarrow> parse_array k acc s = Some (v, r))"
  shows "length r < length s \<and>
    (\<forall>k. length s - length r \<le> k \<longrightarrow> parse_array k acc s = Some (v, r))"
proof -
  from pa obtain x rest where x: "parse_value m s = Some (x, rest)"
    by (cases "parse_value m s") auto
  note ihx = IHv [OF x]
  have lx: "length rest < length s" using ihx by blast
  from pa x obtain d ds where d: "skip_ws rest = d # ds"
    by (cases "skip_ws rest") simp_all
  have lds: "length ds < length rest" using skip_ws_length [of rest] d by simp
  show ?thesis
  proof (cases "d = CHR '']''")
    case True
    with pa x d have r: "r = ds" "v = JArr (acc @ [x])" by auto
    have len: "length r < length s" using r lds lx by simp
    have "parse_array k acc s = Some (v, r)" if "length s - length r \<le> k" for k
    proof -
      from that len obtain k' where k: "k = Suc k'" by (cases k) auto
      have "length s - length rest \<le> k'" using that k r(1) lds lx by auto
      then have "parse_value k' s = Some (x, rest)" using ihx by blast
      then show ?thesis using k d True r by simp
    qed
    with len show ?thesis by blast
  next
    case False
    with pa x d have comma: "d = CHR '',''" by (simp split: if_splits)
    with pa x d False have pr: "parse_array m (acc @ [x]) ds = Some (v, r)" by simp
    note ih = IHa [OF pr]
    have lr: "length r < length ds" using ih by blast
    have len: "length r < length s" using lr lds lx by simp
    have "parse_array k acc s = Some (v, r)" if "length s - length r \<le> k" for k
    proof -
      from that len obtain k' where k: "k = Suc k'" by (cases k) auto
      have "length s - length rest \<le> k'" using that k lr lds lx by arith
      then have 1: "parse_value k' s = Some (x, rest)" using ihx by blast
      have "length ds - length r \<le> k'" using that k lr lds lx by arith
      then have 2: "parse_array k' (acc @ [x]) ds = Some (v, r)" using ih by blast
      show ?thesis using k d False comma 1 2 by simp
    qed
    with len show ?thesis by blast
  qed
qed

lemma parse_object_fuel_step:
  assumes po: "parse_object (Suc m) acc s = Some (v, r)"
    and IHv: "\<And>s v r. parse_value m s = Some (v, r) \<Longrightarrow> length r < length s \<and>
      (\<forall>k. length s - length r \<le> k \<longrightarrow> parse_value k s = Some (v, r))"
    and IHo: "\<And>acc s v r. parse_object m acc s = Some (v, r) \<Longrightarrow> length r < length s \<and>
      (\<forall>k. length s - length r \<le> k \<longrightarrow> parse_object k acc s = Some (v, r))"
  shows "length r < length s \<and>
    (\<forall>k. length s - length r \<le> k \<longrightarrow> parse_object k acc s = Some (v, r))"
proof -
  from po obtain q qs where q0: "skip_ws s = q # qs"
    by (cases "skip_ws s") simp_all
  with po have q1: "q = CHR 0x22" by (simp split: if_splits)
  have lqs: "length qs < length s" using skip_ws_length [of s] q0 by simp
  from po q0 q1 obtain key rest where key: "scanstring qs = Some (key, rest)"
    by (cases "scanstring qs") auto
  have lrest: "length rest < length qs" using scanstring_length [OF key] .
  from po q0 q1 key obtain c0 cs where c0: "skip_ws rest = c0 # cs"
    by (cases "skip_ws rest") simp_all
  with po q0 q1 key have c1: "c0 = CHR '':''" by (simp split: if_splits)
  have lcs: "length cs < length rest" using skip_ws_length [of rest] c0 by simp
  from po q0 q1 key c0 c1 obtain x rest' where x: "parse_value m cs = Some (x, rest')"
    by (cases "parse_value m cs") auto
  note ihx = IHv [OF x]
  have lx: "length rest' < length cs" using ihx by blast
  from po q0 q1 key c0 c1 x obtain e es where e: "skip_ws rest' = e # es"
    by (cases "skip_ws rest'") simp_all
  have les: "length es < length rest'" using skip_ws_length [of rest'] e by simp
  let ?acc = "AList.update key x acc"
  show ?thesis
  proof (cases "e = CHR ''}''")
    case True
    with po q0 q1 key c0 c1 x e have r: "r = es" "v = JObj ?acc" by auto
    have len: "length r < length s" using r les lx lcs lrest lqs by simp
    have "parse_object k acc s = Some (v, r)" if "length s - length r \<le> k" for k
    proof -
      from that len obtain k' where k: "k = Suc k'" by (cases k) auto
      have "length cs - length rest' \<le> k'" using that k r(1) les lx lcs lrest lqs by auto
      then have "parse_value k' cs = Some (x, rest')" using ihx by blast
      then show ?thesis using k q0 q1 key c0 c1 e True r by simp
    qed
    with len show ?thesis by blast
  next
    case False
    with po q0 q1 key c0 c1 x e have comma: "e = CHR '',''" by (simp split: if_splits)
    with po q0 q1 key c0 c1 x e False have pr: "parse_object m ?acc es = Some (v, r)" by simp
    note ih = IHo [OF pr]
    have lr: "length r < length es" using ih by blast
    have len: "length r < length s" using lr les lx lcs lrest lqs by simp
    have "parse_object k acc s = Some (v, r)" if "length s - length r \<le> k" for k
    proof -
      from that len obtain k' where k: "k = Suc k'" by (cases k) auto
      have "length cs - length rest' \<le> k'" using that k lr les lx lcs lrest lqs by arith
      then have 1: "parse_value k' cs = Some (x, rest')" using ihx by blast
      have "length es - length r \<le> k'" using that k lr les lx lcs lrest lqs by arith
      then have 2: "parse_object k' ?acc es = Some (v, r)" using ih by blast
      show ?thesis using k q0 q1 key c0 c1 e False comma 1 2 by simp
    qed
    with len show ?thesis by blast
  qed
qed

lemma parse_fuel:
  "(\<forall>s v r. parse_value m s = Some (v, r) \<longrightarrow>
      length r < length s \<and>
      (\<forall>k. length s - length r \<le> k \<longrightarrow> parse_value k s = Some (v, r))) \<and>
   (\<forall>acc s v r. parse_array m acc s = Some (v, r) \<longrightarrow>
      length r < length s \<and>
      (\<forall>k. length s - length r \<le> k \<longrightarrow> parse_array k acc s = Some (v, r))) \<and>
   (\<forall>acc s v r. parse_object m acc s = Some (v, r) \<longrightarrow>
      length r < length s \<and>
      (\<forall>k. length s - length r \<le> k \<longrightarrow> parse_object k acc s = Some (v, r)))"
proof (induction m)
  case 0
  show ?case by simp
next
  case (Suc m)
  have IHv: "length r < length s \<and>
      (\<forall>k. length s - length r \<le> k \<longrightarrow> parse_value k s = Some (v, r))"
    if "parse_value m s = Some (v, r)" for s v r
    using Suc that by blast
  have IHa: "length r < length s \<and>
      (\<forall>k. length s - length r \<le> k \<longrightarrow> parse_array k acc s = Some (v, r))"
    if "parse_array m acc s = Some (v, r)" for acc s v r
    using Suc that by blast
  have IHo: "length r < length s \<and>
      (\<forall>k. length s - length r \<le> k \<longrightarrow> parse_object k acc s = Some (v, r))"
    if "parse_object m acc s = Some (v, r)" for acc s v r
    using Suc that by blast
  have V: "length r < length s \<and>
      (\<forall>k. length s - length r \<le> k \<longrightarrow> parse_value k s = Some (v, r))"
    if "parse_value (Suc m) s = Some (v, r)" for s v r
    using that IHa IHo by (rule parse_value_fuel_step)
  have A: "length r < length s \<and>
      (\<forall>k. length s - length r \<le> k \<longrightarrow> parse_array k acc s = Some (v, r))"
    if "parse_array (Suc m) acc s = Some (v, r)" for acc s v r
    using that IHv IHa by (rule parse_array_fuel_step)
  have O: "length r < length s \<and>
      (\<forall>k. length s - length r \<le> k \<longrightarrow> parse_object k acc s = Some (v, r))"
    if "parse_object (Suc m) acc s = Some (v, r)" for acc s v r
    using that IHv IHo by (rule parse_object_fuel_step)
  show ?case using V A O by blast
qed

text \<open>
  \<open>json_loads\<close> does not depend on its fuel: it returns a document exactly when
  some fuel lets the descent read one document followed by white space only.
\<close>

lemma json_loads_fuel:
  "json_loads s = Some v \<longleftrightarrow> (\<exists>m r. parse_value m s = Some (v, r) \<and> skip_ws r = [])"
proof
  assume a: "json_loads s = Some v"
  then obtain x where x: "parse_value (Suc (length s)) s = Some x"
    by (cases "parse_value (Suc (length s)) s") (simp_all add: json_loads_def del: parse_value.simps)
  obtain v' r where vr: "x = (v', r)" by (cases x)
  from a x vr have "v' = v" "skip_ws r = []"
    by (simp_all add: json_loads_def del: parse_value.simps split: if_splits)
  with x vr show "\<exists>m r. parse_value m s = Some (v, r) \<and> skip_ws r = []" by blast
next
  assume "\<exists>m r. parse_value m s = Some (v, r) \<and> skip_ws r = []"
  then obtain m r where p: "parse_value m s = Some (v, r)" and r: "skip_ws r = []" by blast
  have "length s - length r \<le> Suc (length s)" by simp
  then have "parse_value (Suc (length s)) s = Some (v, r)"
    using parse_fuel [of m] p by blast
  then show "json_loads s = Some v" using r by (simp add: json_loads_def del: parse_value.simps)
qed

section \<open>Properties of the request key\<close>

lemma param_loop_total:
  "\<forall>k \<in> set ks. map_of params k \<noteq> None \<Longrightarrow>
   param_loop params ks acc =
     Inr (acc @ map (\<lambda>k. k @ ''_'' @ py_format (the (map_of params k))) ks)"
  by (induction ks arbitrary: acc) auto

lemma rendered_keys:
  assumes "distinct (map fst params)"
  shows "map (\<lambda>k. k @ ''_'' @ py_format (the (map_of params k))) (map fst params) =
         map render_param params"
  using assms by (auto simp: render_param_def)

lemma param_loop_keys:
  assumes "distinct (map fst params)"
  shows "param_loop params (map fst params) [] = Inr (map render_param params)"
proof -
  have "\<forall>k \<in> set (map fst params). map_of params k \<noteq> None"
    by (auto simp: map_of_eq_None_iff)
  then show ?thesis
    using param_loop_total [of "map fst params" params "[]"] rendered_keys [OF assms] by simp
qed

text \<open>
  Claim C7: for every base URL and every parameter dictionary,
  \<open>construct_unique_key\<close> returns the key of the specification: each parameter
  rendered as \<^verbatim>\<open>key_value\<close>, the strings sorted lexicographically, joined with an
  underscore, after the base URL and an underscore. The loop never raises.
\<close>

theorem construct_unique_key_refines_spec:
  "distinct (map fst params) \<Longrightarrow>
   construct_unique_key baseurl params = Inr (spec_request_key baseurl params)"
  by (simp add: construct_unique_key_def spec_request_key_def param_loop_keys)

theorem construct_unique_key_refines_spec_witness:
  "distinct (map fst [(''origin'', PStr ''49931''), (''radius'', PInt 10)]) \<and>
   construct_unique_key ''http://api'' [(''origin'', PStr ''49931''), (''radius'', PInt 10)] =
     Inr (spec_request_key ''http://api'' [(''origin'', PStr ''49931''), (''radius'', PInt 10)]) \<and>
   spec_request_key ''http://api'' [(''origin'', PStr ''49931''), (''radius'', PInt 10)] =
     ''http://api_origin_49931_radius_10''"
proof -
  have d: "distinct (map fst [(''origin'', PStr ''49931''), (''radius'', PInt 10)])" by simp
  have v: "spec_request_key ''http://api'' [(''origin'', PStr ''49931''), (''radius'', PInt 10)] =
     ''http://api_origin_49931_radius_10''" by code_simp
  show ?thesis using construct_unique_key_refines_spec [OF d, of "''http://api''"] d v by simp
qed

lemma sort_rendered_perm:
  assumes "mset P1 = mset P2"
  shows "sort (map render_param P1) = sort (map render_param P2)"
proof -
  have "mset (map render_param P1) = mset (map render_param P2)"
    using assms by (metis mset_map)
  then show ?thesis
    by (simp add: properties_for_sort)
qed

lemma distinct_keys_perm:
  assumes "mset P1 = mset P2" and "distinct (map fst P1)"
  shows "distinct (map fst P2)"
proof -
  have "mset (map fst P1) = mset (map fst P2)"
    using assms(1) by (metis mset_map)
  then show ?thesis using assms(2) by (metis mset_eq_imp_distinct_iff)
qed

text \<open>
  Claim C3: two parameter dictionaries that hold the same key/value pairs in a
  different insertion order give the same key for the same base URL.
\<close>

theorem construct_unique_key_order_independent:
  assumes "distinct (map fst P1)" and "mset P1 = mset P2"
  shows "construct_unique_key u P1 = construct_unique_key u P2 \<and>
         (\<exists>key. construct_unique_key u P1 = Inr key)"
proof -
  have d2: "distinct (map fst P2)"
    using distinct_keys_perm [OF assms(2) assms(1)] .
  show ?thesis
    by (simp add: construct_unique_key_def param_loop_keys assms(1) d2
        sort_rendered_perm [OF assms(2)])
qed

theorem construct_unique_key_order_independent_witness:
  "distinct (map fst [(''origin'', PStr ''49931''), (''radius'', PInt 10)]) \<and>
   mset [(''origin'', PStr ''49931''), (''radius'', PInt 10)] =
     mset [(''radius'', PInt 10), (''origin'', PStr ''49931'')] \<and>
   construct_unique_key ''u'' [(''origin'', PStr ''49931''), (''radius'', PInt 10)] =
     construct_unique_key ''u'' [(''radius'', PInt 10), (''origin'', PStr ''49931'')]"
proof -
  have d: "distinct (map fst [(''origin'', PStr ''49931''), (''radius'', PInt 10)])" by simp
  have m: "mset [(''origin'', PStr ''49931''), (''radius'', PInt 10)] =
     mset [(''radius'', PInt 10), (''origin'', PStr ''49931'')]" by simp
  show ?thesis using construct_unique_key_order_independent [OF d m, of "''u''"] d m by blast
qed

text \<open>
  Claim C4: the key is not injective in the parameters. The dictionaries
  \<^verbatim>\<open>{"a": "b_c"}\<close> and \<^verbatim>\<open>{"a_b": "c"}\<close> are different and get the same key
  \<^verbatim>\<open>u_a_b_c\<close>, since the separator between a key and its value is the character that
  may occur in both.
\<close>

theorem construct_unique_key_collision:
  "construct_unique_key ''u'' [(''a'', PStr ''b_c'')] = Inr ''u_a_b_c'' \<and>
   construct_unique_key ''u'' [(''a_b'', PStr ''c'')] = Inr ''u_a_b_c'' \<and>
   mset [(''a'', PStr ''b_c'')] \<noteq> mset [(''a_b'', PStr ''c'')]"
  by (simp add: construct_unique_key_def)

section \<open>Properties of the cache\<close>

lemma snd_open_cache: "snd (open_cache w) = emit DiskRead w"
  by (simp add: open_cache_def Let_def split: file_state.splits option.splits)

lemma disk_emit: "disk (emit e w) = disk w"
  by (simp add: emit_def)

lemma trace_emit: "trace (emit e w) = trace w @ [e]"
  by (simp add: emit_def)

lemma fst_open_cache_disk: "disk w = disk w' \<Longrightarrow> fst (open_cache w) = fst (open_cache w')"
  by (simp add: open_cache_def Let_def split: file_state.splits option.splits)


lemma open_cache_eq: "open_cache w = (fst (open_cache w), emit DiskRead w)"
  using snd_open_cache [of w] by (metis prod.collapse)

lemma save_cache_writable:
  "disk w \<noteq> Unreadable \<Longrightarrow>
   save_cache v w = (Inr (), emit (DiskWrite (json_dumps v)) (w\<lparr>disk := Content (json_dumps v)\<rparr>))"
  by (simp add: save_cache_def Let_def split: file_state.splits)

lemma open_cache_content:
  "disk w = Content (json_dumps v) \<Longrightarrow> wf_json v \<Longrightarrow> fst (open_cache w) = v"
  by (simp add: open_cache_def Let_def json_loads_dumps)




text \<open>
  Claim C2: when the cache file is missing, cannot be opened, cannot be decoded as text
  or holds malformed JSON, \<open>open_cache\<close> returns the empty dictionary. It has no
  exceptional result, and it leaves the file as it is.
\<close>

theorem open_cache_fail_open:
  assumes "disk w = Absent \<or> disk w = Unreadable \<or> disk w = Undecodable \<or>
           (\<exists>c. disk w = Content c \<and> json_loads c = None)"
  shows "open_cache w = (JObj [], emit DiskRead w) \<and> disk (snd (open_cache w)) = disk w"
  using assms by (auto simp: open_cache_def Let_def disk_emit)

theorem open_cache_fail_open_witness:
  "open_cache \<lparr>disk = Absent, trace = []\<rparr> = (JObj [], \<lparr>disk = Absent, trace = [DiskRead]\<rparr>) \<and>
   json_loads ''{bad'' = None \<and>
   open_cache \<lparr>disk = Content ''{bad'', trace = []\<rparr> =
     (JObj [], \<lparr>disk = Content ''{bad'', trace = [DiskRead]\<rparr>)"
proof -
  have m: "json_loads ''{bad'' = None" by code_simp
  have a: "disk \<lparr>disk = Absent, trace = []\<rparr> = Absent \<or>
           disk \<lparr>disk = Absent, trace = []\<rparr> = Unreadable \<or>
           disk \<lparr>disk = Absent, trace = []\<rparr> = Undecodable \<or>
           (\<exists>c. disk \<lparr>disk = Absent, trace = []\<rparr> = Content c \<and> json_loads c = None)"
    by simp
  have b: "disk \<lparr>disk = Content ''{bad'', trace = []\<rparr> = Absent \<or>
           disk \<lparr>disk = Content ''{bad'', trace = []\<rparr> = Unreadable \<or>
           disk \<lparr>disk = Content ''{bad'', trace = []\<rparr> = Undecodable \<or>
           (\<exists>c. disk \<lparr>disk = Content ''{bad'', trace = []\<rparr> = Content c \<and> json_loads c = None)"
    using m by simp
  show ?thesis
    using open_cache_fail_open [OF a] open_cache_fail_open [OF b] m by (simp add: emit_def)
qed



text \<open>
  Claim C5: saving a store, a dictionary from strings to JSON values, and loading it
  again gives the store that was saved.
\<close>

theorem save_then_open_roundtrip:
  assumes "wf_json (JObj store)" and "disk w \<noteq> Unreadable"
  shows "fst (save_cache (JObj store) w) = Inr () \<and>
         fst (open_cache (snd (save_cache (JObj store) w))) = JObj store"
proof -
  have "disk (snd (save_cache (JObj store) w)) = Content (json_dumps (JObj store))"
    by (simp add: save_cache_writable [OF assms(2)] disk_emit del: json_dumps.simps)
  then have "fst (open_cache (snd (save_cache (JObj store) w))) = JObj store"
    using assms(1) by (rule open_cache_content)
  then show ?thesis by (simp add: save_cache_writable [OF assms(2)] del: json_dumps.simps)
qed

theorem save_then_open_roundtrip_witness:
  \<open>wf_json (JObj [(''k1'', JStr ''v1'')]) \<and>
   disk \<lparr>disk = Absent, trace = []\<rparr> \<noteq> Unreadable \<and>
   disk (snd (save_cache (JObj [(''k1'', JStr ''v1'')]) \<lparr>disk = Absent, trace = []\<rparr>)) =
     Content ''{"k1": "v1"}'' \<and>
   fst (open_cache (snd (save_cache (JObj [(''k1'', JStr ''v1'')]) \<lparr>disk = Absent, trace = []\<rparr>))) =
     JObj [(''k1'', JStr ''v1'')]\<close>
proof -
  have w: "wf_json (JObj [(''k1'', JStr ''v1'')])" by simp
  have d: "disk \<lparr>disk = Absent, trace = []\<rparr> \<noteq> Unreadable" by simp
  have c: \<open>json_dumps (JObj [(''k1'', JStr ''v1'')]) = ''{"k1": "v1"}''\<close> by code_simp
  have "disk (snd (save_cache (JObj [(''k1'', JStr ''v1'')]) \<lparr>disk = Absent, trace = []\<rparr>)) =
     Content (json_dumps (JObj [(''k1'', JStr ''v1'')]))"
    by (simp add: save_cache_def emit_def Let_def del: json_dumps.simps)
  then show ?thesis using save_then_open_roundtrip [OF w d] w d c by simp
qed








section \<open>Properties of the places path\<close>

lemma get_nearby_places_world:
  "snd (snd (get_nearby_places api_key api site_object w)) = emit DiskRead w \<or>
   snd (snd (get_nearby_places api_key api site_object w)) =
     emit (Print ''Using Cache'') (emit DiskRead w) \<or>
   snd (snd (get_nearby_places api_key api site_object w)) =
     emit (HttpGet ''http://www.mapquestapi.com/search/v2/radius'')
       (emit (Print ''Fetching'') (emit DiskRead w))"
proof -
  have o: "open_cache w = (fst (open_cache w), emit DiskRead w)" by (rule open_cache_eq)
  show ?thesis
    unfolding get_nearby_places_def Let_def
    by (subst o, subst o, subst o, cases "fst (open_cache w)")
      (simp_all split: option.splits sum.splits)
qed

lemma get_nearby_places_miss:
  assumes "fst (open_cache w) = JObj store" and "map_of store (zipcode site_object) = None"
    and "api ''http://www.mapquestapi.com/search/v2/radius''
           (mapquest_params api_key site_object) = Inr response"
  shows "get_nearby_places api_key api site_object w =
           (Inr response, JObj (store @ [(zipcode site_object, response)]),
            emit (HttpGet ''http://www.mapquestapi.com/search/v2/radius'')
              (emit (Print ''Fetching'') (emit DiskRead w)))"
proof -
  have o: "open_cache w = (JObj store, emit DiskRead w)"
    using open_cache_eq [of w] assms(1) by simp
  have "zipcode site_object \<notin> fst ` set store"
    using assms(2) by (simp add: map_of_eq_None_iff)
  then have "AList.update (zipcode site_object) response store =
               store @ [(zipcode site_object, response)]"
    by (rule update_fresh)
  then show ?thesis
    unfolding get_nearby_places_def o by (simp add: assms(2) assms(3) Let_def)
qed

text \<open>
  Claim C6: \<open>get_nearby_places\<close> never writes the cache file. Whatever the call
  does, the file is as before, the events it adds to the trace hold no disk write, and
  the store a later \<open>open_cache\<close> loads is the one that was there before the call.
  On a miss the response goes under the postal code into the local dictionary only:
  the same call made again finds no entry and sends the request again.
\<close>

theorem get_nearby_places_never_persists:
  "disk (snd (snd (get_nearby_places api_key api site_object w))) = disk w \<and>
   (\<forall>s. DiskWrite s \<notin> set (drop (length (trace w))
                              (trace (snd (snd (get_nearby_places api_key api site_object w)))))) \<and>
   fst (open_cache (snd (snd (get_nearby_places api_key api site_object w)))) =
     fst (open_cache w) \<and>
   (fst (open_cache w) = JObj store \<and> map_of store (zipcode site_object) = None \<and>
    api ''http://www.mapquestapi.com/search/v2/radius''
      (mapquest_params api_key site_object) = Inr response \<longrightarrow>
      fst (get_nearby_places api_key api site_object w) = Inr response \<and>
      fst (snd (get_nearby_places api_key api site_object w)) =
        JObj (store @ [(zipcode site_object, response)]) \<and>
      trace (snd (snd (get_nearby_places api_key api site_object w))) =
        trace w @ [DiskRead, Print ''Fetching'',
                   HttpGet ''http://www.mapquestapi.com/search/v2/radius''] \<and>
      trace (snd (snd (get_nearby_places api_key api site_object
                         (snd (snd (get_nearby_places api_key api site_object w)))))) =
        trace w @ [DiskRead, Print ''Fetching'',
                   HttpGet ''http://www.mapquestapi.com/search/v2/radius'',
                   DiskRead, Print ''Fetching'',
                   HttpGet ''http://www.mapquestapi.com/search/v2/radius''])"
proof -
  let ?w' = "snd (snd (get_nearby_places api_key api site_object w))"
  have d: "disk ?w' = disk w"
    using get_nearby_places_world [of api_key api site_object w] by (auto simp: disk_emit)
  have t: "\<forall>s. DiskWrite s \<notin> set (drop (length (trace w)) (trace ?w'))"
    using get_nearby_places_world [of api_key api site_object w] by (auto simp: trace_emit)
  have o: "fst (open_cache ?w') = fst (open_cache w)"
    using d by (rule fst_open_cache_disk)
  have m: "fst (get_nearby_places api_key api site_object w) = Inr response \<and>
      fst (snd (get_nearby_places api_key api site_object w)) =
        JObj (store @ [(zipcode site_object, response)]) \<and>
      trace ?w' = trace w @ [DiskRead, Print ''Fetching'',
                   HttpGet ''http://www.mapquestapi.com/search/v2/radius''] \<and>
      trace (snd (snd (get_nearby_places api_key api site_object ?w'))) =
        trace w @ [DiskRead, Print ''Fetching'',
                   HttpGet ''http://www.mapquestapi.com/search/v2/radius'',
                   DiskRead, Print ''Fetching'',
                   HttpGet ''http://www.mapquestapi.com/search/v2/radius'']"
    if h: "fst (open_cache w) = JObj store \<and> map_of store (zipcode site_object) = None \<and>
           api ''http://www.mapquestapi.com/search/v2/radius''
             (mapquest_params api_key site_object) = Inr response"
  proof -
    have r: "get_nearby_places api_key api site_object w =
           (Inr response, JObj (store @ [(zipcode site_object, response)]),
            emit (HttpGet ''http://www.mapquestapi.com/search/v2/radius'')
              (emit (Print ''Fetching'') (emit DiskRead w)))"
      using get_nearby_places_miss h by blast
    have o': "fst (open_cache ?w') = JObj store" using o h by simp
    have r': "get_nearby_places api_key api site_object ?w' =
           (Inr response, JObj (store @ [(zipcode site_object, response)]),
            emit (HttpGet ''http://www.mapquestapi.com/search/v2/radius'')
              (emit (Print ''Fetching'') (emit DiskRead ?w')))"
      using get_nearby_places_miss [OF o'] h by blast
    have tw: "trace ?w' = trace w @ [DiskRead, Print ''Fetching'',
                   HttpGet ''http://www.mapquestapi.com/search/v2/radius'']"
      by (simp only: r snd_conv) (simp add: trace_emit)
    have "trace (snd (snd (get_nearby_places api_key api site_object ?w'))) =
            trace ?w' @ [DiskRead, Print ''Fetching'',
                   HttpGet ''http://www.mapquestapi.com/search/v2/radius'']"
      by (subst r') (simp add: trace_emit)
    then show ?thesis using tw by (simp add: r)
  qed
  show ?thesis using d t o m by blast
qed

theorem get_nearby_places_never_persists_witness:
  "get_nearby_places ''KEY'' (\<lambda>url params. Inr (JObj [(''searchResults'', JArr [])]))
     \<lparr>category = ''National Park'', name = ''Isle Royale'', address = ''Houghton, MI'',
      zipcode = ''49931'', phone = ''(906) 482-0984''\<rparr>
     \<lparr>disk = Absent, trace = []\<rparr> =
   (Inr (JObj [(''searchResults'', JArr [])]),
    JObj [(''49931'', JObj [(''searchResults'', JArr [])])],
    \<lparr>disk = Absent,
     trace = [DiskRead, Print ''Fetching'',
              HttpGet ''http://www.mapquestapi.com/search/v2/radius'']\<rparr>) \<and>
   fst (open_cache \<lparr>disk = Absent,
     trace = [DiskRead, Print ''Fetching'',
              HttpGet ''http://www.mapquestapi.com/search/v2/radius'']\<rparr>) = JObj []"
proof -
  let ?site = "\<lparr>category = ''National Park'', name = ''Isle Royale'', address = ''Houghton, MI'',
      zipcode = ''49931'', phone = ''(906) 482-0984''\<rparr>"
  let ?resp = "JObj [(''searchResults'', JArr [])]"
  let ?api = "\<lambda>(url :: string) (params :: (string \<times> param_value) list). Inr ?resp :: py_error + json"
  let ?w = "\<lparr>disk = Absent, trace = []\<rparr>"
  let ?r = "get_nearby_places ''KEY'' ?api ?site ?w"
  have h: "fst (open_cache ?w) = JObj [] \<and> map_of [] (zipcode ?site) = None \<and>
           ?api ''http://www.mapquestapi.com/search/v2/radius'' (mapquest_params ''KEY'' ?site) =
             Inr ?resp"
    by (simp add: open_cache_def)
  have t: "disk (snd (snd ?r)) = disk ?w \<and>
           fst (open_cache (snd (snd ?r))) = fst (open_cache ?w) \<and>
           fst ?r = Inr ?resp \<and>
           fst (snd ?r) = JObj ([] @ [(zipcode ?site, ?resp)]) \<and>
           trace (snd (snd ?r)) =
             trace ?w @ [DiskRead, Print ''Fetching'',
                         HttpGet ''http://www.mapquestapi.com/search/v2/radius'']"
    using get_nearby_places_never_persists [of "''KEY''" ?api ?site ?w "[]" ?resp] h
    by blast
  have eq: "w = \<lparr>disk = d, trace = t\<rparr>" if "disk w = d" "trace w = t" for w :: world and d t
    using that by (cases w) simp
  have w': "snd (snd ?r) = \<lparr>disk = Absent,
     trace = [DiskRead, Print ''Fetching'',
              HttpGet ''http://www.mapquestapi.com/search/v2/radius'']\<rparr>"
    using t by (intro eq) simp_all
  have "?r = (fst ?r, fst (snd ?r), snd (snd ?r))" by simp
  then have "?r = (Inr ?resp, JObj [(''49931'', ?resp)], \<lparr>disk = Absent,
     trace = [DiskRead, Print ''Fetching'',
              HttpGet ''http://www.mapquestapi.com/search/v2/radius'']\<rparr>)"
    using t w' by simp
  moreover have "fst (open_cache \<lparr>disk = Absent,
     trace = [DiskRead, Print ''Fetching'',
              HttpGet ''http://www.mapquestapi.com/search/v2/radius'']\<rparr>) = JObj []"
    using t w' h by simp
  ultimately show ?thesis by blast
qed

section \<open>Properties of the interactive loop\<close>

lemma lower_exit: "lower ''exit'' = ''exit''"
  by (simp add: lower_def lower_char_def)

lemma lower_back: "lower ''back'' = ''back''"
  by (simp add: lower_def lower_char_def)

text \<open>
  Claim C9: \<^verbatim>\<open>exit\<close> typed at the prompt for a site number does not end the
  program. Line 267 sets \<^verbatim>\<open>temp\<close> and line 268 leaves the inner loop, and nothing
  after the inner loop reads \<^verbatim>\<open>temp\<close>, so the outer loop asks for a state again:
  the program does then what it does for \<^verbatim>\<open>back\<close>. It ends when \<^verbatim>\<open>exit\<close> is
  typed a second time, at the prompt for a state.
\<close>

theorem exit_at_site_prompt_returns_to_state_prompt:
  "main_loop S (AtSite sites_list) (''exit'' # inputs) =
     after_out [AskNumber] (main_loop S AtState inputs) \<and>
   main_loop S (AtSite sites_list) (''exit'' # inputs) =
     main_loop S (AtSite sites_list) (''back'' # inputs) \<and>
   main_loop S (AtSite sites_list) [''exit''] = ([AskNumber, AskState], Crashed EOFError) \<and>
   main_loop S (AtSite sites_list) [''exit'', ''exit''] = ([AskNumber, AskState], Exited)"
  by (simp add: lower_exit lower_back after_out_def)

lemma superscript_at_site_prompt_crashes:
  "main_loop S (AtSite sites_list) ([CHR 0xB2] # inputs) = ([AskNumber], Crashed ValueError)"
  by (simp add: lower_def lower_char_def isnumeric_def is_numeric_char_def is_digit_def
      py_int_def)

lemma exit_at_state_prompt: "main_loop S AtState (''exit'' # inputs) = ([AskState], Exited)"
  by (simp add: lower_exit)

lemma unknown_state_reprompts:
  assumes "lower typed \<noteq> ''exit''" and "map_of (states_dict S) (lower (lower typed)) = None"
  shows "main_loop S AtState (typed # inputs) =
           after_out [AskState, Line ''[Error]: Enter proper state name'']
             (main_loop S AtState inputs)"
  using assms by (simp add: Let_def)

end
